theory Spec2Isabelle
  imports Main
begin

section \<open>Shared JavaScript values\<close>

text \<open>
  A thrown JavaScript error is an object with a constructor name and a message. The
  two source files only ever read \<open>message\<close> of a caught error and only ever build
  errors with \<open>new Error(msg)\<close>, so an error is modelled by these two fields.
\<close>

datatype js_error = JsError (name: string) (message: string)

text \<open>\<open>new Error(msg)\<close>: the generic error class.\<close>

definition Error :: "string \<Rightarrow> js_error" where
  "Error msg = JsError ''Error'' msg"

section \<open>src/database/booking.model.ts\<close>

subsection \<open>The email path of \<open>bookingSchema\<close>\<close>

text \<open>
  A JavaScript string is a sequence of UTF-16 code units. Strings are modelled as
  \<open>string\<close>, lists of 8-bit characters, each character standing for the code unit of
  the same number: the strings covered are those of the code units \<open>U+0000\<close> to
  \<open>U+00FF\<close> (Latin-1). Among these, the white space of \<open>String.prototype.trim\<close> and of
  the regular expression class \<open>\s\<close> is the same set: tab, line feed, vertical tab,
  form feed, carriage return, space and the no-break space \<open>U+00A0\<close>. Among these,
  \<open>toLowerCase\<close> maps \<open>A\<close>..\<open>Z\<close> (65..90) and the capital letters \<open>U+00C0\<close>..\<open>U+00DE\<close>
  other than the multiplication sign \<open>U+00D7\<close> to the code unit 32 above and keeps
  every other character.
\<close>

definition isWhiteSpace :: "char \<Rightarrow> bool" where
  "isWhiteSpace c =
     (c \<in> set [CHR 0x09, CHR 0x0A, CHR 0x0B, CHR 0x0C, CHR 0x0D, CHR '' '', CHR 0xA0])"





text \<open>
  The regular expression of line 33, \<open>/^[^\s@]+@[^\s@]+\.[^\s@]+$/\<close>, is a sequence of
  items, each a character class taken once or one or more times (\<open>+\<close>). The anchors
  \<open>^\<close> and \<open>$\<close> make \<open>test\<close> a match of the whole string.
\<close>

datatype char_class = Lit char | NotSpaceAt



fun in_class :: "char_class \<Rightarrow> char \<Rightarrow> bool" where
  "in_class (Lit a) c = (c = a)"
| "in_class NotSpaceAt c = (\<not> isWhiteSpace c \<and> c \<noteq> CHR ''@'')"








text \<open>A non-empty run of characters of the class \<open>[^\s@]\<close>, as one \<open>+\<close> item matches.\<close>

definition plain :: "string \<Rightarrow> bool" where
  "plain u = (u \<noteq> [] \<and> list_all (in_class NotSpaceAt) u)"

subsection \<open>The pre-save hook\<close>

text \<open>
  An \<open>ObjectId\<close> is represented by its 24-digit hexadecimal form, which is what the
  template literal of line 57 interpolates.
\<close>

datatype objectid = ObjectId string

fun toString :: "objectid \<Rightarrow> string" where
  "toString (ObjectId hex) = hex"

text \<open>
  The document the hook runs on (\<open>this\<close>): its two fields and the paths that were set
  or changed since it was loaded; \<open>isModified\<close> reads the latter. A new document has
  every path it was given among them.
\<close>

record booking_doc =
  eventId :: objectid
  email :: string
  modifiedPaths :: "string list"

definition isModified :: "booking_doc \<Rightarrow> string \<Rightarrow> bool" where
  "isModified this path = (path \<in> set (modifiedPaths this))"

text \<open>
  \<open>Event.findById\<close> is the Event store: for an identifier it rejects with an error
  (\<open>Inl\<close>), or resolves to \<open>null\<close> (\<open>Inr None\<close>) or to the event found.
\<close>

type_synonym 'ev event_store = "objectid \<Rightarrow> js_error + 'ev option"

text \<open>The body of the \<open>try\<close> block, lines 53-59: the awaited lookup may throw, and so does an absent event.\<close>

definition pre_save_try :: "'ev event_store \<Rightarrow> booking_doc \<Rightarrow> js_error + unit" where
  "pre_save_try findById this =
     (case findById (eventId this) of
        Inl err \<Rightarrow> Inl err
      | Inr None \<Rightarrow>
          Inl (Error (''Event with ID '' @ toString (eventId this) @
                      '' does not exist. Cannot create booking.''))
      | Inr (Some eventExists) \<Rightarrow> Inr ())"

text \<open>
  The hook, lines 49-66. Its result is paired with the list of identifiers it looked
  up in the Event store, so that "no lookup" can be stated.
\<close>

definition pre_save :: "'ev event_store \<Rightarrow> booking_doc \<Rightarrow> objectid list \<times> (js_error + unit)" where
  "pre_save findById this =
     (if isModified this ''eventId'' then
        ([eventId this],
         case pre_save_try findById this of
           Inl error \<Rightarrow> Inl (Error (''Failed to validate event reference: '' @ message error))
         | Inr u \<Rightarrow> Inr u)
      else ([], Inr ()))"

subsection \<open>Model registration\<close>

text \<open>
  \<open>mongoose.models\<close> is the registry of compiled models by name. A model is an
  object: its identity is a number given at compilation, beside its name and the
  schema it was compiled from. \<open>mongoose.model(name, schema)\<close> compiles and registers
  a model under a name that is not registered. For a registered name it returns the
  registered model when it is given the very schema object of that model, and throws
  \<open>OverwriteModelError\<close> when it is given another schema object. Schemas are compared
  as objects: two values of \<open>'sch\<close> are equal when they are the same object.
\<close>

record 'sch model =
  modelId :: nat
  modelName :: string
  schema :: 'sch

record 'sch mongoose =
  models :: "string \<rightharpoonup> 'sch model"
  compiled :: nat

definition mongoose_model ::
  "'sch mongoose \<Rightarrow> string \<Rightarrow> 'sch \<Rightarrow> js_error + ('sch model \<times> 'sch mongoose)" where
  "mongoose_model m nm sch =
     (case models m nm of
        Some old \<Rightarrow>
          (if sch = schema old then Inr (old, m)
           else Inl (JsError ''OverwriteModelError''
                       (''Cannot overwrite `'' @ nm @ ''` model once compiled.'')))
      | None \<Rightarrow>
          (let new = \<lparr>modelId = compiled m, modelName = nm, schema = sch\<rparr>
           in Inr (new, m\<lparr>models := (models m)(nm \<mapsto> new), compiled := Suc (compiled m)\<rparr>)))"

text \<open>Lines 75-76: \<open>mongoose.models.Booking || mongoose.model('Booking', bookingSchema)\<close>.\<close>

definition Booking ::
  "'sch mongoose \<Rightarrow> 'sch \<Rightarrow> js_error + ('sch model \<times> 'sch mongoose)" where
  "Booking m bookingSchema =
     (case models m ''Booking'' of
        Some existing \<Rightarrow> Inr (existing, m)
      | None \<Rightarrow> mongoose_model m ''Booking'' bookingSchema)"

section \<open>src/lib/mongodb.ts\<close>

subsection \<open>The cache and the promises\<close>

text \<open>
  A connection handle, a promise and a caller of \<open>connectDB\<close> are identified by
  numbers. \<open>cached\<close> is the object of lines 28-32 with its two nullable fields. Every
  \<open>mongoose.connect(...).then(...)\<close> of line 54 creates one promise; \<open>connects\<close> lists
  them in the order of creation, so its length is the number of connect operations
  issued and a promise is its index there.
\<close>

type_synonym connection = nat
type_synonym promise_ref = nat
type_synonym caller = nat

datatype promise_state = Pending | Fulfilled connection | Rejected js_error

datatype outcome = Returned connection | Threw js_error

record cache =
  conn :: "connection option"
  promise :: "promise_ref option"

text \<open>
  \<open>connectDB\<close> is an \<open>async\<close> function: a call runs up to the \<open>await\<close> of line 61 and
  is suspended there, and it is resumed in a later job once the awaited promise has
  settled. The state therefore holds, beside the cache and the promises, the suspended
  callers with the promise each awaits and the callers that have completed with what
  they received.
\<close>

record runtime =
  cached :: cache
  connects :: "promise_state list"
  awaiting :: "caller \<rightharpoonup> promise_ref"
  finished :: "caller \<rightharpoonup> outcome"

text \<open>Lines 28-32: the cache of an earlier load of the module is kept, else a new one is made.\<close>

definition init_cached :: "cache option \<Rightarrow> cache" where
  "init_cached global_mongoose =
     (case global_mongoose of Some c \<Rightarrow> c | None \<Rightarrow> \<lparr>conn = None, promise = None\<rparr>)"

definition start :: runtime where
  "start = \<lparr>cached = init_cached None, connects = [], awaiting = Map.empty, finished = Map.empty\<rparr>"

subsection \<open>\<open>connectDB\<close>\<close>

text \<open>
  Lines 42-61, from the call to the \<open>await\<close>: a cached connection is returned at once;
  otherwise a connect is issued when no promise is stored, and the caller is suspended
  on the stored promise.
\<close>

definition connectDB_call :: "runtime \<Rightarrow> caller \<Rightarrow> runtime" where
  "connectDB_call s c =
     (case conn (cached s) of
        Some h \<Rightarrow> s\<lparr>finished := (finished s)(c \<mapsto> Returned h)\<rparr>
      | None \<Rightarrow>
          (case promise (cached s) of
             None \<Rightarrow>
               s\<lparr>cached := (cached s)\<lparr>promise := Some (length (connects s))\<rparr>,
                 connects := connects s @ [Pending],
                 awaiting := (awaiting s)(c \<mapsto> length (connects s))\<rparr>
           | Some p \<Rightarrow> s\<lparr>awaiting := (awaiting s)(c \<mapsto> p)\<rparr>))"

definition settled :: "runtime \<Rightarrow> promise_ref \<Rightarrow> promise_state" where
  "settled s p = (if p < length (connects s) then connects s ! p else Pending)"

text \<open>
  Lines 59-68, from the \<open>await\<close> on: when the awaited promise is fulfilled the value is
  stored in \<open>cached.conn\<close> and returned; when it is rejected the \<open>catch\<close> block sets
  \<open>cached.promise\<close> to \<open>null\<close> and rethrows. A caller whose promise is still pending
  cannot be resumed (\<open>None\<close>).
\<close>

definition connectDB_resume :: "runtime \<Rightarrow> caller \<Rightarrow> runtime option" where
  "connectDB_resume s c =
     (case awaiting s c of
        None \<Rightarrow> None
      | Some p \<Rightarrow>
          (case settled s p of
             Pending \<Rightarrow> None
           | Fulfilled h \<Rightarrow>
               Some (s\<lparr>cached := (cached s)\<lparr>conn := Some h\<rparr>,
                       awaiting := (awaiting s)(c := None),
                       finished := (finished s)(c \<mapsto> Returned h)\<rparr>)
           | Rejected error \<Rightarrow>
               Some (s\<lparr>cached := (cached s)\<lparr>promise := None\<rparr>,
                       awaiting := (awaiting s)(c := None),
                       finished := (finished s)(c \<mapsto> Threw error)\<rparr>)))"

text \<open>The driver settles a pending connect, with a failure (\<open>Inl\<close>) or a connection (\<open>Inr\<close>).\<close>

definition settle :: "runtime \<Rightarrow> promise_ref \<Rightarrow> js_error + connection \<Rightarrow> runtime option" where
  "settle s p r =
     (if p < length (connects s) \<and> connects s ! p = Pending
      then Some (s\<lparr>connects :=
                     (connects s)[p := (case r of Inl e \<Rightarrow> Rejected e | Inr h \<Rightarrow> Fulfilled h)]\<rparr>)
      else None)"

subsection \<open>Runs\<close>

text \<open>
  What can happen, one job at a time: a new caller calls \<open>connectDB\<close>, the driver
  settles a connect, or a suspended caller is resumed. A run is a sequence of such
  events, in any order in which each is possible; every schedule of the event loop is
  among them.
\<close>

datatype event = Call caller | Settle promise_ref "js_error + connection" | Resume caller

fun step :: "runtime \<Rightarrow> event \<Rightarrow> runtime option" where
  "step s (Call c) =
     (if awaiting s c = None \<and> finished s c = None then Some (connectDB_call s c) else None)"
| "step s (Settle p r) = settle s p r"
| "step s (Resume c) = connectDB_resume s c"

fun run :: "runtime \<Rightarrow> event list \<Rightarrow> runtime option" where
  "run s [] = Some s"
| "run s (e # es) = (case step s e of None \<Rightarrow> None | Some s' \<Rightarrow> run s' es)"

definition in_flight :: "runtime \<Rightarrow> nat" where
  "in_flight s = count_list (connects s) Pending"

definition failure_free :: "event list \<Rightarrow> bool" where
  "failure_free es = list_all (\<lambda>e. case e of Settle p (Inl err) \<Rightarrow> False | _ \<Rightarrow> True) es"

fun outcome_of :: "promise_state \<Rightarrow> outcome option" where
  "outcome_of Pending = None"
| "outcome_of (Fulfilled h) = Some (Returned h)"
| "outcome_of (Rejected e) = Some (Threw e)"

definition called :: "runtime \<Rightarrow> caller \<Rightarrow> bool" where
  "called s c \<longleftrightarrow> awaiting s c \<noteq> None \<or> finished s c \<noteq> None"

text \<open>
  The three phases of a run in which no connect fails: nothing has happened, the one
  connect is pending, the one connect has given the connection \<open>h\<close>.
\<close>

definition idle :: "runtime \<Rightarrow> bool" where
  "idle s \<longleftrightarrow> connects s = [] \<and> cached s = \<lparr>conn = None, promise = None\<rparr> \<and>
     awaiting s = Map.empty \<and> finished s = Map.empty"

definition connecting :: "runtime \<Rightarrow> bool" where
  "connecting s \<longleftrightarrow> connects s = [Pending] \<and> cached s = \<lparr>conn = None, promise = Some 0\<rparr> \<and>
     (\<forall>c p. awaiting s c = Some p \<longrightarrow> p = 0) \<and> finished s = Map.empty \<and>
     (\<exists>c. awaiting s c \<noteq> None)"

definition connected :: "connection \<Rightarrow> runtime \<Rightarrow> bool" where
  "connected h s \<longleftrightarrow> connects s = [Fulfilled h] \<and> promise (cached s) = Some 0 \<and>
     (conn (cached s) = None \<or> conn (cached s) = Some h) \<and>
     (\<forall>c p. awaiting s c = Some p \<longrightarrow> p = 0) \<and>
     (\<forall>c r. finished s c = Some r \<longrightarrow> r = Returned h \<and> conn (cached s) = Some h) \<and>
     (\<exists>c. awaiting s c \<noteq> None \<or> finished s c \<noteq> None)"

definition single :: "runtime \<Rightarrow> bool" where
  "single s \<longleftrightarrow> idle s \<or> connecting s \<or> (\<exists>h. connected h s)"

text \<open>
  The \<open>catch\<close> block of line 64 sets \<open>cached.promise\<close> to \<open>null\<close> whatever it holds. A
  resumption is a stale clear when the promise field then holds a promise other than
  the rejected one the resumed caller awaited: the promise of a newer attempt is
  dropped from the cache. A run has no stale clear when none of its resumptions is one.
\<close>

fun stale_clear :: "runtime \<Rightarrow> event \<Rightarrow> bool" where
  "stale_clear s (Resume c) =
     (case awaiting s c of
        None \<Rightarrow> False
      | Some p \<Rightarrow>
          (case settled s p of
             Rejected error \<Rightarrow> promise (cached s) \<noteq> None \<and> promise (cached s) \<noteq> Some p
           | Fulfilled h \<Rightarrow> False
           | Pending \<Rightarrow> False))"
| "stale_clear s (Call c) = False"
| "stale_clear s (Settle p r) = False"

fun no_stale_clear :: "runtime \<Rightarrow> event list \<Rightarrow> bool" where
  "no_stale_clear s [] = True"
| "no_stale_clear s (e # es) =
     (\<not> stale_clear s e \<and>
      (case step s e of None \<Rightarrow> True | Some s' \<Rightarrow> no_stale_clear s' es))"

fun failed :: "promise_state \<Rightarrow> bool" where
  "failed Pending = False"
| "failed (Fulfilled h) = False"
| "failed (Rejected e) = True"

text \<open>
  The invariant of the runs with no stale clear: a connect that has not failed is the
  one held in the promise field; every promise referred to exists; a cached connection
  is the value of a fulfilled connect; a caller that returned holds the cached handle.
\<close>

definition live_is_cached :: "runtime \<Rightarrow> bool" where
  "live_is_cached s \<longleftrightarrow>
     (\<forall>q<length (connects s). (\<forall>e. connects s ! q \<noteq> Rejected e) \<longrightarrow> promise (cached s) = Some q)"

definition well_formed :: "runtime \<Rightarrow> bool" where
  "well_formed s \<longleftrightarrow>
     (\<forall>p. promise (cached s) = Some p \<longrightarrow> p < length (connects s)) \<and>
     (\<forall>c p. awaiting s c = Some p \<longrightarrow> p < length (connects s)) \<and>
     (\<forall>h. conn (cached s) = Some h \<longrightarrow> (\<exists>q<length (connects s). connects s ! q = Fulfilled h)) \<and>
     (\<forall>c h. finished s c = Some (Returned h) \<longrightarrow> conn (cached s) = Some h)"

definition shared_attempt :: "runtime \<Rightarrow> bool" where
  "shared_attempt s \<longleftrightarrow> live_is_cached s \<and> well_formed s"

text \<open>Example values used below: a booking document, two Event stores, a driver failure.\<close>

definition new_booking :: booking_doc where
  "new_booking = \<lparr>eventId = ObjectId ''507f1f77bcf86cd799439011'', email = ''user@example.com'',
                   modifiedPaths = [''eventId'', ''email'']\<rparr>"

definition email_update :: booking_doc where
  "email_update = \<lparr>eventId = ObjectId ''507f1f77bcf86cd799439011'', email = ''new@example.com'',
                    modifiedPaths = [''email'']\<rparr>"

definition no_events :: "unit event_store" where
  "no_events = (\<lambda>i. Inr None)"

definition store_down :: "unit event_store" where
  "store_down = (\<lambda>i. Inl (JsError ''MongoNetworkError'' ''connection timed out''))"

definition refused :: js_error where
  "refused = JsError ''MongooseServerSelectionError'' ''connect ECONNREFUSED''"

section \<open>Lemmas on the email path\<close>















section \<open>Lemmas on the connection cache\<close>

lemma single_start: "single start"
  by (simp add: single_def idle_def start_def init_cached_def)

lemma cache_eq: "(c :: cache) = \<lparr>conn = a, promise = b\<rparr> \<longleftrightarrow> conn c = a \<and> promise c = b"
  by (cases c) auto

lemma single_call:
  assumes "single s" and "step s (Call c) = Some s'"
  shows "single s'"
proof -
  from assms(2) have s': "s' = connectDB_call s c" and fresh: "awaiting s c = None" "finished s c = None"
    by (auto split: if_splits)
  from assms(1) consider "idle s" | "connecting s" | h where "connected h s"
    by (auto simp: single_def)
  then show ?thesis
  proof cases
    case 1
    then have "connecting s'"
      by (auto simp: idle_def connecting_def s' connectDB_call_def)
    then show ?thesis by (simp add: single_def)
  next
    case 2
    then have "connecting s'"
      by (auto simp: connecting_def s' connectDB_call_def)
    then show ?thesis by (simp add: single_def)
  next
    case 3
    then have "connected h s'"
      by (auto simp: connected_def s' connectDB_call_def split: option.splits)
    then show ?thesis by (auto simp: single_def)
  qed
qed

lemma single_settle:
  assumes "single s" and "step s (Settle p (Inr h)) = Some s'"
  shows "single s'"
proof -
  from assms(2) have p: "p < length (connects s)" "connects s ! p = Pending"
    and s': "s' = s\<lparr>connects := (connects s)[p := Fulfilled h]\<rparr>"
    by (auto simp: settle_def split: if_splits)
  from assms(1) consider "idle s" | "connecting s" | h where "connected h s"
    by (auto simp: single_def)
  then show ?thesis
  proof cases
    case 1
    with p show ?thesis by (simp add: idle_def)
  next
    case 2
    with p have "connected h s'"
      by (auto simp: connecting_def connected_def s')
    then show ?thesis by (auto simp: single_def)
  next
    case 3
    with p show ?thesis by (auto simp: connected_def)
  qed
qed

lemma single_resume:
  assumes "single s" and "step s (Resume c) = Some s'"
  shows "single s'"
proof -
  from assms(2) obtain p where aw: "awaiting s c = Some p" and st: "settled s p \<noteq> Pending"
    by (auto simp: connectDB_resume_def split: option.splits promise_state.splits)
  from assms(1) consider "idle s" | "connecting s" | h where "connected h s"
    by (auto simp: single_def)
  then show ?thesis
  proof cases
    case 1
    with aw show ?thesis by (simp add: idle_def)
  next
    case 2
    with aw have "p = 0" "connects s = [Pending]" by (auto simp: connecting_def)
    with st show ?thesis by (simp add: settled_def)
  next
    case 3
    with aw have p0: "p = 0" and "connects s = [Fulfilled h]"
      by (auto simp: connected_def)
    then have "settled s p = Fulfilled h"
      by (simp add: settled_def)
    with aw assms(2) have s': "s' = s\<lparr>cached := (cached s)\<lparr>conn := Some h\<rparr>,
                       awaiting := (awaiting s)(c := None),
                       finished := (finished s)(c \<mapsto> Returned h)\<rparr>"
      by (simp add: connectDB_resume_def)
    from 3 have "connected h s'"
      unfolding connected_def s' by (auto split: if_splits)
    then show ?thesis by (auto simp: single_def)
  qed
qed

lemma single_step:
  assumes "single s" and "step s e = Some s'" and "failure_free [e]"
  shows "single s'"
proof (cases e)
  case (Call c)
  with assms show ?thesis by (auto intro: single_call)
next
  case (Settle p r)
  with assms(3) obtain h where "r = Inr h" by (cases r) (auto simp: failure_free_def)
  with Settle assms show ?thesis by (auto intro: single_settle)
next
  case (Resume c)
  with assms show ?thesis by (auto intro: single_resume)
qed

lemma single_run:
  "single s \<Longrightarrow> run s es = Some s' \<Longrightarrow> failure_free es \<Longrightarrow> single s'"
proof (induction es arbitrary: s)
  case Nil
  then show ?case by simp
next
  case (Cons e es)
  from Cons.prems(2) obtain s1 where s1: "step s e = Some s1" and r: "run s1 es = Some s'"
    by (auto split: option.splits)
  from Cons.prems(3) have "failure_free [e]" "failure_free es"
    by (simp_all add: failure_free_def)
  with Cons.prems(1) s1 r Cons.IH show ?case
    by (blast intro: single_step)
qed

lemma settled_step:
  assumes "step s e = Some s'" and "settled s p \<noteq> Pending"
  shows "settled s' p = settled s p"
proof (cases e)
  case (Call c)
  with assms show ?thesis
    by (auto simp: connectDB_call_def settled_def nth_append split: if_splits option.splits)
next
  case (Settle q r)
  with assms show ?thesis
    by (auto simp: settle_def settled_def nth_list_update split: if_splits)
next
  case (Resume c)
  with assms show ?thesis
    by (auto simp: connectDB_resume_def settled_def split: option.splits promise_state.splits)
qed

lemma settled_run:
  "run s es = Some s' \<Longrightarrow> settled s p \<noteq> Pending \<Longrightarrow> settled s' p = settled s p"
proof (induction es arbitrary: s)
  case Nil
  then show ?case by simp
next
  case (Cons e es)
  from Cons.prems(1) obtain s1 where s1: "step s e = Some s1" and r: "run s1 es = Some s'"
    by (auto split: option.splits)
  from s1 Cons.prems(2) have "settled s1 p = settled s p" by (rule settled_step)
  with Cons.IH [OF r] Cons.prems(2) show ?case by simp
qed

lemma conn_step:
  assumes "step s e = Some s'" and "conn (cached s) \<noteq> None"
  shows "conn (cached s') \<noteq> None"
proof (cases e)
  case (Call c)
  with assms show ?thesis
    by (auto simp: connectDB_call_def split: if_splits)
next
  case (Settle q r)
  with assms show ?thesis
    by (auto simp: settle_def split: if_splits)
next
  case (Resume c)
  with assms show ?thesis
    by (auto simp: connectDB_resume_def split: option.splits promise_state.splits)
qed

lemma conn_run:
  "run s es = Some s' \<Longrightarrow> conn (cached s) \<noteq> None \<Longrightarrow> conn (cached s') \<noteq> None"
proof (induction es arbitrary: s)
  case Nil
  then show ?case by simp
next
  case (Cons e es)
  from Cons.prems(1) obtain s1 where s1: "step s e = Some s1" and r: "run s1 es = Some s'"
    by (auto split: option.splits)
  from s1 Cons.prems(2) have "conn (cached s1) \<noteq> None" by (rule conn_step)
  with Cons.IH [OF r] show ?case by simp
qed

lemma called_step:
  assumes "step s e = Some s'" and "called s c \<or> e = Call c"
  shows "called s' c"
proof (cases e)
  case (Call d)
  with assms show ?thesis
    by (auto simp: called_def connectDB_call_def split: if_splits option.splits)
next
  case (Settle q r)
  with assms show ?thesis
    by (auto simp: called_def settle_def split: if_splits)
next
  case (Resume d)
  with assms show ?thesis
    by (auto simp: called_def connectDB_resume_def split: option.splits promise_state.splits)
qed

lemma called_run:
  "run s es = Some s' \<Longrightarrow> called s c \<or> Call c \<in> set es \<Longrightarrow> called s' c"
proof (induction es arbitrary: s)
  case Nil
  then show ?case by simp
next
  case (Cons e es)
  from Cons.prems(1) obtain s1 where s1: "step s e = Some s1" and r: "run s1 es = Some s'"
    by (auto split: option.splits)
  from Cons.prems(2) consider "called s c \<or> e = Call c" | "Call c \<in> set es" by auto
  then show ?case
  proof cases
    case 1
    with s1 have "called s1 c" by (rule called_step)
    with Cons.IH [OF r] show ?thesis by simp
  next
    case 2
    with Cons.IH [OF r] show ?thesis by simp
  qed
qed

lemma single_facts:
  assumes "single s"
  shows "length (connects s) \<le> 1" and "in_flight s \<le> 1"
    and "called s c \<Longrightarrow> length (connects s) = 1"
    and "finished s c = Some r \<Longrightarrow> \<exists>h. r = Returned h \<and> conn (cached s) = Some h"
  using assms
  by (auto simp: single_def idle_def connecting_def connected_def in_flight_def called_def)

lemma resume_settled:
  assumes "awaiting s c = Some p" and "outcome_of (settled s p) = Some r"
  shows "\<exists>s'. connectDB_resume s c = Some s' \<and> finished s' c = Some r"
  using assms by (cases "settled s p") (auto simp: connectDB_resume_def)

lemma shared_attempt_start: "shared_attempt start"
  by (simp add: shared_attempt_def live_is_cached_def well_formed_def start_def init_cached_def)

lemma live_call:
  assumes "live_is_cached s"
  shows "live_is_cached (connectDB_call s c)"
proof (cases "conn (cached s)")
  case (Some h)
  with assms show ?thesis by (simp add: connectDB_call_def live_is_cached_def)
next
  case None
  show ?thesis
  proof (cases "promise (cached s)")
    case (Some p)
    with None assms show ?thesis by (simp add: connectDB_call_def live_is_cached_def)
  next
    case n: None
    with assms have all: "\<forall>q<length (connects s). \<exists>e. connects s ! q = Rejected e"
      by (auto simp: live_is_cached_def)
    have s': "connectDB_call s c =
        s\<lparr>cached := (cached s)\<lparr>promise := Some (length (connects s))\<rparr>,
          connects := connects s @ [Pending],
          awaiting := (awaiting s)(c \<mapsto> length (connects s))\<rparr>"
      using None n by (simp add: connectDB_call_def)
    show ?thesis
      unfolding s' live_is_cached_def using all
      by (auto simp: nth_append less_Suc_eq)
  qed
qed

lemma wf_call:
  assumes "well_formed s"
  shows "well_formed (connectDB_call s c)"
proof (cases "conn (cached s)")
  case (Some h)
  with assms show ?thesis by (auto simp: connectDB_call_def well_formed_def)
next
  case None
  show ?thesis
  proof (cases "promise (cached s)")
    case (Some p)
    with None assms show ?thesis by (auto simp: connectDB_call_def well_formed_def)
  next
    case n: None
    have s': "connectDB_call s c =
        s\<lparr>cached := (cached s)\<lparr>promise := Some (length (connects s))\<rparr>,
          connects := connects s @ [Pending],
          awaiting := (awaiting s)(c \<mapsto> length (connects s))\<rparr>"
      using None n by (simp add: connectDB_call_def)
    from assms None show ?thesis
      unfolding s' well_formed_def by (auto simp: nth_append less_Suc_eq)
  qed
qed

lemma live_settle:
  assumes "live_is_cached s" and "settle s p r = Some s'"
  shows "live_is_cached s'"
proof -
  from assms(2) have p: "p < length (connects s)" "connects s ! p = Pending"
    and s': "s' = s\<lparr>connects :=
        (connects s)[p := (case r of Inl e \<Rightarrow> Rejected e | Inr h \<Rightarrow> Fulfilled h)]\<rparr>"
    by (auto simp: settle_def split: if_splits)
  from assms(1) p have "promise (cached s) = Some p"
    by (simp add: live_is_cached_def)
  with assms(1) show ?thesis
    unfolding s' live_is_cached_def by (auto simp: nth_list_update)
qed

lemma wf_settle:
  assumes "well_formed s" and "settle s p r = Some s'"
  shows "well_formed s'"
proof -
  from assms(2) have p: "p < length (connects s)" "connects s ! p = Pending"
    and s': "s' = s\<lparr>connects :=
        (connects s)[p := (case r of Inl e \<Rightarrow> Rejected e | Inr h \<Rightarrow> Fulfilled h)]\<rparr>"
    by (auto simp: settle_def split: if_splits)
  have keep: "\<exists>q<length (connects s).
      (connects s)[p := (case r of Inl e \<Rightarrow> Rejected e | Inr h \<Rightarrow> Fulfilled h)] ! q = Fulfilled h"
    if "q < length (connects s)" "connects s ! q = Fulfilled h" for q h
  proof -
    from that p have "q \<noteq> p" by auto
    with that show ?thesis by (auto simp: nth_list_update)
  qed
  from assms(1) show ?thesis
    unfolding s' well_formed_def using keep by (simp) blast
qed

lemma resume_cases:
  assumes "connectDB_resume s c = Some s'"
  obtains (fulfilled) p h where "awaiting s c = Some p" "p < length (connects s)"
      "connects s ! p = Fulfilled h"
      "s' = s\<lparr>cached := (cached s)\<lparr>conn := Some h\<rparr>, awaiting := (awaiting s)(c := None),
               finished := (finished s)(c \<mapsto> Returned h)\<rparr>"
    | (rejected) p e where "awaiting s c = Some p" "p < length (connects s)"
      "connects s ! p = Rejected e"
      "s' = s\<lparr>cached := (cached s)\<lparr>promise := None\<rparr>, awaiting := (awaiting s)(c := None),
               finished := (finished s)(c \<mapsto> Threw e)\<rparr>"
proof -
  from assms obtain p where aw: "awaiting s c = Some p"
    by (auto simp: connectDB_resume_def split: option.splits)
  show ?thesis
  proof (cases "settled s p")
    case Pending
    with aw assms show ?thesis by (simp add: connectDB_resume_def)
  next
    case (Fulfilled h)
    then have "p < length (connects s)" "connects s ! p = Fulfilled h"
      by (auto simp: settled_def split: if_splits)
    with aw Fulfilled assms fulfilled show ?thesis
      by (auto simp: connectDB_resume_def)
  next
    case (Rejected e)
    then have "p < length (connects s)" "connects s ! p = Rejected e"
      by (auto simp: settled_def split: if_splits)
    with aw Rejected assms rejected show ?thesis
      by (auto simp: connectDB_resume_def)
  qed
qed

lemma live_resume:
  assumes "live_is_cached s" and "connectDB_resume s c = Some s'" and "\<not> stale_clear s (Resume c)"
  shows "live_is_cached s'"
  using assms(2)
proof (cases rule: resume_cases)
  case (fulfilled p h)
  with assms(1) show ?thesis by (simp add: live_is_cached_def)
next
  case (rejected p e)
  then have st: "settled s p = Rejected e" by (simp add: settled_def)
  with assms(3) rejected(1) have pr: "promise (cached s) = None \<or> promise (cached s) = Some p"
    by auto
  have "\<exists>e. connects s ! q = Rejected e" if "q < length (connects s)" for q
  proof (rule ccontr)
    assume "\<not> (\<exists>e. connects s ! q = Rejected e)"
    with assms(1) that have "promise (cached s) = Some q" by (simp add: live_is_cached_def)
    with pr have "q = p" by auto
    with rejected(3) \<open>\<not> (\<exists>e. connects s ! q = Rejected e)\<close> show False by simp
  qed
  then show ?thesis
    unfolding rejected(4) live_is_cached_def by auto
qed

lemma wf_resume:
  assumes "well_formed s" and "live_is_cached s" and "connectDB_resume s c = Some s'"
  shows "well_formed s'"
  using assms(3)
proof (cases rule: resume_cases)
  case (fulfilled p h)
  have same: "h' = h" if "conn (cached s) = Some h'" for h'
  proof -
    from assms(1) that obtain q where q: "q < length (connects s)" "connects s ! q = Fulfilled h'"
      by (auto simp: well_formed_def)
    with assms(2) have "promise (cached s) = Some q" by (simp add: live_is_cached_def)
    moreover from assms(2) fulfilled have "promise (cached s) = Some p"
      by (simp add: live_is_cached_def)
    ultimately have "q = p" by simp
    with q fulfilled show ?thesis by simp
  qed
  from assms(1) fulfilled(2,3) same show ?thesis
    unfolding fulfilled(4) well_formed_def by auto
next
  case (rejected p e)
  from assms(1) show ?thesis
    unfolding rejected(4) well_formed_def by auto
qed

lemma shared_attempt_step:
  assumes "shared_attempt s" and "step s e = Some s'" and "\<not> stale_clear s e"
  shows "shared_attempt s'"
proof (cases e)
  case (Call c)
  with assms show ?thesis
    by (auto simp: shared_attempt_def live_call wf_call split: if_splits)
next
  case (Settle p r)
  with assms show ?thesis
    by (auto simp: shared_attempt_def intro: live_settle wf_settle)
next
  case (Resume c)
  with assms show ?thesis
    by (auto simp: shared_attempt_def intro: live_resume wf_resume)
qed

lemma shared_attempt_run:
  "shared_attempt s \<Longrightarrow> run s es = Some s' \<Longrightarrow> no_stale_clear s es \<Longrightarrow> shared_attempt s'"
proof (induction es arbitrary: s)
  case Nil
  then show ?case by simp
next
  case (Cons e es)
  from Cons.prems(2) obtain s1 where s1: "step s e = Some s1" and r: "run s1 es = Some s'"
    by (auto split: option.splits)
  from Cons.prems(3) s1 have n: "\<not> stale_clear s e" "no_stale_clear s1 es"
    by simp_all
  from Cons.prems(1) s1 n(1) have "shared_attempt s1" by (rule shared_attempt_step)
  from Cons.IH [OF this r n(2)] show ?case .
qed

lemma filter_le_1:
  "(\<And>i j. i < length xs \<Longrightarrow> j < length xs \<Longrightarrow> P (xs ! i) \<Longrightarrow> P (xs ! j) \<Longrightarrow> i = j) \<Longrightarrow>
   length (filter P xs) \<le> 1"
proof (induction xs)
  case Nil
  then show ?case by simp
next
  case (Cons a xs)
  have tail: "i = j" if "i < length xs" "j < length xs" "P (xs ! i)" "P (xs ! j)" for i j
  proof -
    from that Cons.prems [of "Suc i" "Suc j"] show ?thesis by simp
  qed
  show ?case
  proof (cases "P a")
    case False
    with Cons.IH tail show ?thesis by simp
  next
    case True
    have "\<not> P y" if "y \<in> set xs" for y
    proof
      assume "P y"
      from that obtain i where "i < length xs" "xs ! i = y" by (auto simp: in_set_conv_nth)
      with True \<open>P y\<close> Cons.prems [of 0 "Suc i"] show False by simp
    qed
    then have "filter P xs = []" by (simp add: filter_empty_conv)
    with True show ?thesis by simp
  qed
qed

lemma shared_attempt_facts:
  assumes "shared_attempt s"
  shows "length (filter (\<lambda>r. \<not> failed r) (connects s)) \<le> 1"
    and "in_flight s \<le> 1"
    and "q < length (connects s) \<Longrightarrow> promise (cached s) \<noteq> Some q \<Longrightarrow> \<exists>e. settled s q = Rejected e"
    and "finished s c = Some (Returned h) \<Longrightarrow> conn (cached s) = Some h"
proof -
  from assms have live: "live_is_cached s" and wf: "well_formed s"
    by (simp_all add: shared_attempt_def)
  have cachedq: "promise (cached s) = Some i" if "i < length (connects s)" "\<not> failed (connects s ! i)"
    for i
  proof -
    from that(2) have "\<forall>e. connects s ! i \<noteq> Rejected e" by auto
    with live that(1) show ?thesis unfolding live_is_cached_def by blast
  qed
  have one: "i = j" if "i < length (connects s)" "j < length (connects s)"
    "\<not> failed (connects s ! i)" "\<not> failed (connects s ! j)" for i j
    using cachedq [OF that(1,3)] cachedq [OF that(2,4)] by simp
  then show "length (filter (\<lambda>r. \<not> failed r) (connects s)) \<le> 1"
    by (rule filter_le_1)
  have "i = j" if "i < length (connects s)" "j < length (connects s)"
    "Pending = connects s ! i" "Pending = connects s ! j" for i j
  proof -
    from that(3,4) have "\<not> failed (connects s ! i)" "\<not> failed (connects s ! j)"
      by (metis failed.simps(1))+
    with that(1,2) show ?thesis by (rule one)
  qed
  then have "length (filter ((=) Pending) (connects s)) \<le> 1"
    by (rule filter_le_1)
  then show "in_flight s \<le> 1"
    by (simp add: in_flight_def count_list_eq_length_filter)
  show "\<exists>e. settled s q = Rejected e" if "q < length (connects s)" "promise (cached s) \<noteq> Some q"
    using live that by (auto simp: live_is_cached_def settled_def)
  show "conn (cached s) = Some h" if "finished s c = Some (Returned h)"
    using wf that by (auto simp: well_formed_def)
qed

section \<open>Claims on the Booking schema\<close>

text \<open>
  Claim C4. When the hook looks the referenced Event up (the \<open>eventId\<close> is new or
  modified) and the lookup returns absent, the save is aborted: the hook raises an
  error, and the message of that error contains the identifier of the missing event.
\<close>

theorem absent_event_aborts_save:
  assumes "isModified this ''eventId''" and "findById (eventId this) = Inr None"
  shows "pre_save findById this =
    ([eventId this],
     Inl (Error (''Failed to validate event reference: Event with ID '' @
                 toString (eventId this) @ '' does not exist. Cannot create booking.'')))"
  using assms by (simp add: pre_save_def pre_save_try_def Error_def)

text \<open>Claim C4, at a new booking for an identifier the Event store does not have.\<close>

theorem absent_event_aborts_save_witness:
  "isModified new_booking ''eventId'' \<and> no_events (eventId new_booking) = Inr None \<and>
   pre_save no_events new_booking =
     ([ObjectId ''507f1f77bcf86cd799439011''],
      Inl (JsError ''Error''
        ''Failed to validate event reference: Event with ID 507f1f77bcf86cd799439011 does not exist. Cannot create booking.''))"
  using absent_event_aborts_save [of new_booking no_events]
  by (simp add: new_booking_def no_events_def isModified_def Error_def)

text \<open>
  Claim C5, as stated, asks for two distinct error kinds. At a new booking, an absent
  event and a failed lookup both end in an error of the one class \<open>Error\<close>, with the
  same prefix: the error kinds are not distinct.
\<close>

theorem distinct_error_kinds_counterexample:
  "snd (pre_save no_events new_booking) =
     Inl (JsError ''Error''
       ''Failed to validate event reference: Event with ID 507f1f77bcf86cd799439011 does not exist. Cannot create booking.'') \<and>
   snd (pre_save store_down new_booking) =
     Inl (JsError ''Error'' ''Failed to validate event reference: connection timed out'') \<and>
   map_sum name id (snd (pre_save no_events new_booking)) =
     map_sum name id (snd (pre_save store_down new_booking))"
  by (simp add: pre_save_def pre_save_try_def new_booking_def no_events_def store_down_def
      isModified_def Error_def)

text \<open>
  Claim C5, amended. When the hook looks the Event up, both failures abort the save
  with an error of the same kind, the generic \<open>Error\<close>, whose message starts with
  \<open>Failed to validate event reference: \<close>. They differ in the rest of the message only:
  for an absent event it is the text naming the identifier, for a failed lookup it is
  the message of the underlying failure. A failed lookup is never swallowed, and a
  found event raises nothing.
\<close>

theorem absent_and_failed_lookup_wrapped_alike:
  assumes "isModified this ''eventId''"
  shows "(findById (eventId this) = Inr None \<longrightarrow>
            snd (pre_save findById this) =
              Inl (Error (''Failed to validate event reference: '' @
                ''Event with ID '' @ toString (eventId this) @
                '' does not exist. Cannot create booking.''))) \<and>
         (\<forall>err. findById (eventId this) = Inl err \<longrightarrow>
            snd (pre_save findById this) =
              Inl (Error (''Failed to validate event reference: '' @ message err))) \<and>
         (\<forall>ev. findById (eventId this) = Inr (Some ev) \<longrightarrow>
            snd (pre_save findById this) = Inr ())"
  using assms by (simp add: pre_save_def pre_save_try_def Error_def)

text \<open>Claim C5, amended, at a new booking while the Event store is unreachable.\<close>

theorem absent_and_failed_lookup_wrapped_alike_witness:
  "isModified new_booking ''eventId'' \<and>
   store_down (eventId new_booking) = Inl (JsError ''MongoNetworkError'' ''connection timed out'') \<and>
   snd (pre_save store_down new_booking) =
     Inl (JsError ''Error'' ''Failed to validate event reference: connection timed out'')"
  using absent_and_failed_lookup_wrapped_alike [of new_booking store_down]
  by (simp add: new_booking_def store_down_def isModified_def Error_def)

text \<open>
  Claim C6. Every error the hook raises has passed through its \<open>catch\<close> block: it is
  a generic \<open>Error\<close> whose message is \<open>Failed to validate event reference: \<close> followed
  by the message of the error raised inside the \<open>try\<close> block. For an absent event that
  inner message names the identifier; for a failed lookup the inner error is the
  underlying failure. The kind of the raised error is the same in both cases.
\<close>

theorem hook_errors_are_rewrapped:
  assumes "snd (pre_save findById this) = Inl e"
  shows "name e = ''Error'' \<and>
         (\<exists>inner. pre_save_try findById this = Inl inner \<and>
            message e = ''Failed to validate event reference: '' @ message inner \<and>
            (findById (eventId this) = Inr None \<longrightarrow>
               inner = Error (''Event with ID '' @ toString (eventId this) @
                              '' does not exist. Cannot create booking.'')) \<and>
            (\<forall>err. findById (eventId this) = Inl err \<longrightarrow> inner = err))"
proof (cases "isModified this ''eventId''")
  case False
  with assms show ?thesis by (simp add: pre_save_def)
next
  case True
  show ?thesis
  proof (cases "pre_save_try findById this")
    case (Inr u)
    with True assms show ?thesis by (simp add: pre_save_def)
  next
    case (Inl inner)
    with True assms have e: "e = Error (''Failed to validate event reference: '' @ message inner)"
      by (simp add: pre_save_def)
    from Inl have "findById (eventId this) = Inr None \<longrightarrow>
        inner = Error (''Event with ID '' @ toString (eventId this) @
                       '' does not exist. Cannot create booking.'')"
      by (auto simp: pre_save_try_def)
    moreover from Inl have "\<forall>err. findById (eventId this) = Inl err \<longrightarrow> inner = err"
      by (auto simp: pre_save_try_def)
    ultimately show ?thesis
      using Inl e by (simp add: Error_def)
  qed
qed

text \<open>Claim C6, at the error raised for a new booking whose event is absent.\<close>

theorem hook_errors_are_rewrapped_witness:
  "snd (pre_save no_events new_booking) =
     Inl (JsError ''Error''
       ''Failed to validate event reference: Event with ID 507f1f77bcf86cd799439011 does not exist. Cannot create booking.'') \<and>
   pre_save_try no_events new_booking =
     Inl (JsError ''Error''
       ''Event with ID 507f1f77bcf86cd799439011 does not exist. Cannot create booking.'')"
proof -
  have r: "snd (pre_save no_events new_booking) =
     Inl (JsError ''Error''
       ''Failed to validate event reference: Event with ID 507f1f77bcf86cd799439011 does not exist. Cannot create booking.'')"
    by (simp add: pre_save_def pre_save_try_def new_booking_def no_events_def isModified_def
        Error_def)
  from hook_errors_are_rewrapped [OF r]
  have "pre_save_try no_events new_booking =
     Inl (Error (''Event with ID '' @ toString (eventId new_booking) @
                 '' does not exist. Cannot create booking.''))"
    by (auto simp: no_events_def)
  with r show ?thesis
    by (simp add: new_booking_def Error_def)
qed

text \<open>
  Claim C8. For a save in which \<open>eventId\<close> is not among the modified paths, such as an
  update of the email alone, the hook looks nothing up in the Event store and raises
  nothing, whatever the store contains or answers.
\<close>

theorem email_only_update_skips_lookup:
  assumes "\<not> isModified this ''eventId''"
  shows "pre_save findById this = ([], Inr ())"
  using assms by (simp add: pre_save_def)

text \<open>Claim C8, at an update of the email after the referenced event was deleted.\<close>

theorem email_only_update_skips_lookup_witness:
  "modifiedPaths email_update = [''email''] \<and> no_events (eventId email_update) = Inr None \<and>
   pre_save no_events email_update = ([], Inr ())"
  using email_only_update_skips_lookup [of email_update no_events]
  by (simp add: email_update_def no_events_def isModified_def)

text \<open>
  Claim C10. Evaluating the definition of \<open>Booking\<close> never raises a registration
  error, and a second evaluation, with whatever schema object the reloaded module has
  built, returns the model of the first and leaves the registry as it is: the model
  registered under \<open>Booking\<close> is returned without \<open>mongoose.model\<close> being called, which
  would raise for the new schema object of a reloaded module.
\<close>

theorem Booking_registration_idempotent:
  "\<exists>b m'. Booking m schema1 = Inr (b, m') \<and> Booking m' schema2 = Inr (b, m') \<and>
     models m' ''Booking'' = Some b \<and>
     (schema2 \<noteq> schema b \<longrightarrow>
        mongoose_model m' ''Booking'' schema2 =
          Inl (JsError ''OverwriteModelError''
                 ''Cannot overwrite `Booking` model once compiled.''))"
  by (cases "models m ''Booking''") (simp_all add: Booking_def mongoose_model_def Let_def)

text \<open>Claim C10, from the empty registry, with two different schema objects.\<close>

theorem Booking_registration_idempotent_witness:
  "\<exists>b m'. Booking \<lparr>models = Map.empty, compiled = 0\<rparr> (1::nat) = Inr (b, m') \<and>
     Booking m' 2 = Inr (b, m') \<and> modelId b = 0 \<and> schema b = 1 \<and>
     mongoose_model m' ''Booking'' 2 =
       Inl (JsError ''OverwriteModelError'' ''Cannot overwrite `Booking` model once compiled.'')"
proof -
  from Booking_registration_idempotent [of "\<lparr>models = Map.empty, compiled = 0\<rparr>" "1::nat" 2]
  obtain b m' where b: "Booking \<lparr>models = Map.empty, compiled = 0\<rparr> (1::nat) = Inr (b, m')"
    and b2: "Booking m' 2 = Inr (b, m')"
    and r: "2 \<noteq> schema b \<longrightarrow> mongoose_model m' ''Booking'' 2 =
       Inl (JsError ''OverwriteModelError'' ''Cannot overwrite `Booking` model once compiled.'')"
    by blast
  from b have i: "modelId b = 0 \<and> schema b = 1"
    by (auto simp: Booking_def mongoose_model_def Let_def)
  with r have "mongoose_model m' ''Booking'' 2 =
       Inl (JsError ''OverwriteModelError'' ''Cannot overwrite `Booking` model once compiled.'')"
    by simp
  with b b2 i show ?thesis by blast
qed




section \<open>Claims on the connection cache\<close>

lemma calls_on_cached:
  "conn (cached s) = Some h \<Longrightarrow>
   foldl connectDB_call s cs =
     s\<lparr>finished := (\<lambda>d. if d \<in> set cs then Some (Returned h) else finished s d)\<rparr>"
proof (induction cs arbitrary: s)
  case Nil
  then show ?case by simp
next
  case (Cons c cs)
  let ?s1 = "s\<lparr>finished := (finished s)(c \<mapsto> Returned h)\<rparr>"
  from Cons.prems have s1: "connectDB_call s c = ?s1"
    by (simp add: connectDB_call_def)
  from Cons.prems have "conn (cached ?s1) = Some h" by simp
  from Cons.IH [OF this] have "foldl connectDB_call ?s1 cs =
      ?s1\<lparr>finished := (\<lambda>d. if d \<in> set cs then Some (Returned h) else finished ?s1 d)\<rparr>" .
  also have "\<dots> = s\<lparr>finished := (\<lambda>d. if d \<in> set (c # cs) then Some (Returned h) else finished s d)\<rparr>"
    by (auto simp: fun_eq_iff)
  finally show ?case by (simp add: s1)
qed

text \<open>
  Claim C1, as stated, has exactly one connect operation issued for every sequence of
  calls. After a failed attempt has been handed to its caller, the next call issues a
  second connect operation: two have been issued in this run.
\<close>

theorem one_connect_counterexample:
  "map_option (\<lambda>s. length (connects s))
     (run start [Call 0, Settle 0 (Inl refused), Resume 0, Call 1]) = Some 2"
  by (simp add: start_def init_cached_def connectDB_call_def connectDB_resume_def settle_def
      settled_def)

text \<open>
  Claim C1, amended. In every run of calls to \<open>connectDB\<close>, concurrent ones included,
  that has no stale clear (no \<open>catch\<close> block clears a future other than the one its
  caller awaited): at most one connect operation is in flight at any instant; at most
  one connect has not failed, every connect other than the one held in the cache has
  failed, so that one connect is issued per attempt and a further one only after the
  stored one failed; every caller that returned holds the cached handle, so all
  handles received are the same. In every run in which no attempt fails, exactly one
  connect is issued for the whole run once a call has been made. In every run
  whatsoever, a caller awaiting a future that has settled receives that future's
  outcome whenever it is resumed, so that all callers awaiting one future receive the
  same handle or the same failure.
\<close>

theorem one_attempt_at_a_time_shared:
  assumes "run start es = Some s"
  shows "(no_stale_clear start es \<longrightarrow>
            in_flight s \<le> 1 \<and>
            length (filter (\<lambda>r. \<not> failed r) (connects s)) \<le> 1 \<and>
            (\<forall>q. q < length (connects s) \<and> promise (cached s) \<noteq> Some q \<longrightarrow>
               (\<exists>e. settled s q = Rejected e)) \<and>
            (\<forall>c h. finished s c = Some (Returned h) \<longrightarrow> conn (cached s) = Some h)) \<and>
         (failure_free es \<longrightarrow>
            length (connects s) \<le> 1 \<and> in_flight s \<le> 1 \<and>
            (\<forall>c. Call c \<in> set es \<longrightarrow> length (connects s) = 1) \<and>
            (\<forall>c r. finished s c = Some r \<longrightarrow>
               (\<exists>h. r = Returned h \<and> conn (cached s) = Some h))) \<and>
         (\<forall>p r es' s' c.
            outcome_of (settled s p) = Some r \<and> run s es' = Some s' \<and> awaiting s' c = Some p \<longrightarrow>
            (\<exists>s''. step s' (Resume c) = Some s'' \<and> finished s'' c = Some r))"
proof (intro conjI impI allI)
  assume "no_stale_clear start es"
  with shared_attempt_start assms have inv: "shared_attempt s" by (rule shared_attempt_run)
  from inv show "in_flight s \<le> 1" by (rule shared_attempt_facts(2))
  from inv show "length (filter (\<lambda>r. \<not> failed r) (connects s)) \<le> 1"
    by (rule shared_attempt_facts(1))
  show "\<exists>e. settled s q = Rejected e"
    if "q < length (connects s) \<and> promise (cached s) \<noteq> Some q" for q
    using shared_attempt_facts(3) [OF inv] that by blast
  show "conn (cached s) = Some h" if "finished s c = Some (Returned h)" for c h
    using inv that by (rule shared_attempt_facts(4))
next
  assume ff: "failure_free es"
  from single_start assms ff have inv: "single s" by (rule single_run)
  from inv show "length (connects s) \<le> 1" by (rule single_facts(1))
  from inv show "in_flight s \<le> 1" by (rule single_facts(2))
  show "length (connects s) = 1" if "Call c \<in> set es" for c
  proof -
    from assms that have "called s c" by (auto intro: called_run)
    with inv show ?thesis by (rule single_facts(3))
  qed
  show "\<exists>h. r = Returned h \<and> conn (cached s) = Some h" if "finished s c = Some r" for c r
    using inv that by (rule single_facts(4))
next
  fix p r es' s' c
  assume h: "outcome_of (settled s p) = Some r \<and> run s es' = Some s' \<and> awaiting s' c = Some p"
  then have "settled s p \<noteq> Pending" by auto
  with h have "settled s' p = settled s p" by (auto intro: settled_run)
  with h have "outcome_of (settled s' p) = Some r" by simp
  with h have "\<exists>s''. connectDB_resume s' c = Some s'' \<and> finished s'' c = Some r"
    by (auto intro: resume_settled)
  then show "\<exists>s''. step s' (Resume c) = Some s'' \<and> finished s'' c = Some r" by simp
qed

text \<open>
  Claim C1, amended, at a run of two calls whose shared attempt fails, followed by two
  calls sharing the second attempt and a call made once the connection is cached; and
  at a run of three calls in which nothing fails.
\<close>

theorem one_attempt_at_a_time_shared_witness:
  "no_stale_clear start
     [Call 0, Call 1, Settle 0 (Inl refused), Resume 0, Resume 1, Call 2, Call 3,
      Settle 1 (Inr 7), Resume 3, Resume 2, Call 4] \<and>
   (\<exists>s. run start
          [Call 0, Call 1, Settle 0 (Inl refused), Resume 0, Resume 1, Call 2, Call 3,
           Settle 1 (Inr 7), Resume 3, Resume 2, Call 4] = Some s \<and>
        length (connects s) = 2 \<and> in_flight s \<le> 1 \<and> conn (cached s) = Some 7 \<and>
        finished s 0 = Some (Threw refused) \<and> finished s 1 = Some (Threw refused) \<and>
        finished s 2 = Some (Returned 7) \<and> finished s 4 = Some (Returned 7)) \<and>
   failure_free [Call 0, Call 1, Settle 0 (Inr 7), Resume 1, Call 2, Resume 0] \<and>
   (\<exists>s. run start [Call 0, Call 1, Settle 0 (Inr 7), Resume 1, Call 2, Resume 0] = Some s \<and>
        length (connects s) = 1 \<and> finished s 0 = Some (Returned 7) \<and>
        finished s 1 = Some (Returned 7) \<and> finished s 2 = Some (Returned 7))"
proof -
  let ?retry = "[Call 0, Call 1, Settle 0 (Inl refused), Resume 0, Resume 1, Call 2, Call 3,
      Settle 1 (Inr 7), Resume 3, Resume 2, Call 4]"
  let ?plain = "[Call 0, Call 1, Settle 0 (Inr 7), Resume 1, Call 2, Resume 0]"
  have n: "no_stale_clear start ?retry"
    by (simp add: start_def init_cached_def connectDB_call_def connectDB_resume_def settle_def
        settled_def)
  obtain s where r: "run start ?retry = Some s" and l: "length (connects s) = 2"
    and f: "finished s 0 = Some (Threw refused)" "finished s 1 = Some (Threw refused)"
      "finished s 2 = Some (Returned 7)" "finished s 4 = Some (Returned 7)"
    by (simp add: start_def init_cached_def connectDB_call_def connectDB_resume_def settle_def
        settled_def)
  from one_attempt_at_a_time_shared [OF r] n f(3)
  have a: "in_flight s \<le> 1 \<and> conn (cached s) = Some 7" by blast
  have ff: "failure_free ?plain" by (simp add: failure_free_def)
  obtain t where rt: "run start ?plain = Some t"
    and ft: "finished t 0 = Some (Returned 7)" "finished t 1 = Some (Returned 7)"
      "finished t 2 = Some (Returned 7)"
    by (simp add: start_def init_cached_def connectDB_call_def connectDB_resume_def settle_def
        settled_def)
  from one_attempt_at_a_time_shared [OF rt] ff
  have b: "length (connects t) = 1" by simp
  from n r l f a have A: "\<exists>s. run start ?retry = Some s \<and>
        length (connects s) = 2 \<and> in_flight s \<le> 1 \<and> conn (cached s) = Some 7 \<and>
        finished s 0 = Some (Threw refused) \<and> finished s 1 = Some (Threw refused) \<and>
        finished s 2 = Some (Returned 7) \<and> finished s 4 = Some (Returned 7)"
    by blast
  from rt ft b have B: "\<exists>s. run start ?plain = Some s \<and>
        length (connects s) = 1 \<and> finished s 0 = Some (Returned 7) \<and>
        finished s 1 = Some (Returned 7) \<and> finished s 2 = Some (Returned 7)"
    by blast
  from n A ff B show ?thesis by (intro conjI)
qed

text \<open>
  A run with a stale clear: the second caller arrives after the first connect has been
  rejected and before the first caller is resumed, so it awaits the rejected promise.
  When it is resumed in its turn, its \<open>catch\<close> block clears the promise of the connect
  that a third caller has issued meanwhile, and a fourth caller issues another: two
  connects are pending together.
\<close>

lemma late_waiter_clears_newer_promise:
  "map_option in_flight
     (run start [Call 0, Settle 0 (Inl refused), Call 1, Resume 0, Call 2, Resume 1, Call 3])
   = Some 2 \<and>
   \<not> no_stale_clear start
     [Call 0, Settle 0 (Inl refused), Call 1, Resume 0, Call 2, Resume 1, Call 3]"
  by (simp add: start_def init_cached_def connectDB_call_def connectDB_resume_def settle_def
      settled_def in_flight_def)

text \<open>
  Claim C2, as stated, has the promise field cleared on success. After a call, a
  successful connect and the resumption of the caller, the connection is cached and
  the promise field still holds the fulfilled promise.
\<close>

theorem promise_cleared_on_success_counterexample:
  "map_option (\<lambda>s. (conn (cached s), promise (cached s)))
     (run start [Call 0, Settle 0 (Inr 7), Resume 0]) = Some (Some 7, Some 0)"
  by (simp add: start_def init_cached_def connectDB_call_def connectDB_resume_def settle_def
      settled_def)

text \<open>
  Claim C2, amended. When the awaited connection attempt succeeds, \<open>connectDB\<close> stores
  the resulting handle in the cache's connection field and returns it; the connection
  field is set from then on, whatever happens later; the promise field is left as it
  is, not cleared.
\<close>

theorem success_caches_connection:
  assumes "awaiting s c = Some p" and "settled s p = Fulfilled h"
  shows "\<exists>s'. connectDB_resume s c = Some s' \<and> conn (cached s') = Some h \<and>
           promise (cached s') = promise (cached s) \<and> finished s' c = Some (Returned h) \<and>
           (\<forall>es s''. run s' es = Some s'' \<longrightarrow> conn (cached s'') \<noteq> None)"
proof -
  let ?s' = "s\<lparr>cached := (cached s)\<lparr>conn := Some h\<rparr>, awaiting := (awaiting s)(c := None),
               finished := (finished s)(c \<mapsto> Returned h)\<rparr>"
  from assms have r: "connectDB_resume s c = Some ?s'"
    by (simp add: connectDB_resume_def)
  have "conn (cached s'') \<noteq> None" if "run ?s' es = Some s''" for es s''
    using that by (rule conn_run) simp
  with r show ?thesis by simp
qed

text \<open>Claim C2, amended, at the state reached by a call and a successful connect.\<close>

theorem success_caches_connection_witness:
  "\<exists>s. run start [Call 0, Settle 0 (Inr 7)] = Some s \<and> awaiting s 0 = Some 0 \<and>
     settled s 0 = Fulfilled 7 \<and>
     (\<exists>s'. connectDB_resume s 0 = Some s' \<and> conn (cached s') = Some 7 \<and>
        promise (cached s') = Some 0 \<and> finished s' 0 = Some (Returned 7))"
proof -
  obtain s where r: "run start [Call 0, Settle 0 (Inr 7)] = Some s"
    and a: "awaiting s 0 = Some 0" and f: "settled s 0 = Fulfilled 7"
    and p: "promise (cached s) = Some 0"
    by (simp add: start_def init_cached_def connectDB_call_def settle_def settled_def)
  from success_caches_connection [OF a f] p
  have "\<exists>s'. connectDB_resume s 0 = Some s' \<and> conn (cached s') = Some 7 \<and>
        promise (cached s') = Some 0 \<and> finished s' 0 = Some (Returned 7)"
    by auto
  with r a f show ?thesis by blast
qed

text \<open>
  What the \<open>catch\<close> block does for a failed attempt: resuming a caller that awaits the
  rejected future clears the promise field, leaves the connection field as it was
  (the failure is not cached) and raises the failure to that caller; every other
  caller awaiting the same future is raised the same failure when resumed. With no
  connection cached, a call made in the state a resumption has left issues a new
  connect operation and awaits its new, pending future, which is not the failed one.
\<close>

lemma catch_clears_promise_then_call_retries:
  assumes "awaiting s c = Some p" and "settled s p = Rejected e"
  shows "\<exists>s'. connectDB_resume s c = Some s' \<and> promise (cached s') = None \<and>
           conn (cached s') = conn (cached s) \<and> connects s' = connects s \<and>
           finished s' c = Some (Threw e) \<and>
           (\<forall>d. d \<noteq> c \<and> awaiting s d = Some p \<longrightarrow>
              (\<exists>s''. connectDB_resume s' d = Some s'' \<and> finished s'' d = Some (Threw e))) \<and>
           (conn (cached s) = None \<longrightarrow>
              (\<forall>d. length (connects (connectDB_call s' d)) = Suc (length (connects s)) \<and>
                   promise (cached (connectDB_call s' d)) = Some (length (connects s)) \<and>
                   awaiting (connectDB_call s' d) d = Some (length (connects s)) \<and>
                   settled (connectDB_call s' d) (length (connects s)) = Pending \<and>
                   p \<noteq> length (connects s)))"
proof -
  let ?s' = "s\<lparr>cached := (cached s)\<lparr>promise := None\<rparr>, awaiting := (awaiting s)(c := None),
               finished := (finished s)(c \<mapsto> Threw e)\<rparr>"
  from assms have r: "connectDB_resume s c = Some ?s'"
    by (simp add: connectDB_resume_def)
  from assms(2) have p: "p < length (connects s)"
    by (cases "p < length (connects s)") (simp_all add: settled_def)
  from assms(2) p have st: "settled ?s' p = Rejected e"
    by (simp add: settled_def)
  have others: "\<exists>s''. connectDB_resume ?s' d = Some s'' \<and> finished s'' d = Some (Threw e)"
    if "d \<noteq> c \<and> awaiting s d = Some p" for d
  proof -
    from that have "awaiting ?s' d = Some p" by simp
    moreover from st have "outcome_of (settled ?s' p) = Some (Threw e)" by simp
    ultimately show ?thesis by (rule resume_settled)
  qed
  have retry: "length (connects (connectDB_call ?s' d)) = Suc (length (connects s)) \<and>
      promise (cached (connectDB_call ?s' d)) = Some (length (connects s)) \<and>
      awaiting (connectDB_call ?s' d) d = Some (length (connects s)) \<and>
      settled (connectDB_call ?s' d) (length (connects s)) = Pending \<and>
      p \<noteq> length (connects s)"
    if "conn (cached s) = None" for d
    using that p by (simp add: connectDB_call_def settled_def)
  from r others retry show ?thesis by simp
qed

text \<open>
  Claim C3 has the call that follows a failed attempt issue a fresh connect rather than
  reuse the failed future, as the comment of line 63 intends. The promise field is
  cleared by the \<open>catch\<close> block of a resumed caller only, not when the attempt fails. A
  call made after the connect has been rejected and before the first caller is resumed
  finds the rejected promise in the cache: it issues no connect (one connect in all),
  awaits the failed future, and is raised the old failure when resumed.
\<close>

theorem next_call_reuses_failed_future:
  "map_option (\<lambda>s. (length (connects s), promise (cached s), settled s 0, awaiting s 1))
     (run start [Call 0, Settle 0 (Inl refused), Call 1]) =
     Some (1, Some 0, Rejected refused, Some 0) \<and>
   map_option (\<lambda>s. (length (connects s), finished s 1))
     (run start [Call 0, Settle 0 (Inl refused), Call 1, Resume 0, Resume 1]) =
     Some (1, Some (Threw refused))"
  by (simp add: start_def init_cached_def connectDB_call_def connectDB_resume_def settle_def
      settled_def)

text \<open>
  Claim C9. Whenever a connection is cached, a call to \<open>connectDB\<close> completes at once
  with the cached handle: the caller is not suspended, no connect operation is issued
  and the cache is not written. This holds for every call of any sequence of calls
  made from there.
\<close>

theorem cached_connection_returned_at_once:
  assumes "conn (cached s) = Some h"
  shows "connectDB_call s c = s\<lparr>finished := (finished s)(c \<mapsto> Returned h)\<rparr> \<and>
         connects (foldl connectDB_call s cs) = connects s \<and>
         cached (foldl connectDB_call s cs) = cached s \<and>
         awaiting (foldl connectDB_call s cs) = awaiting s \<and>
         (\<forall>d\<in>set cs. finished (foldl connectDB_call s cs) d = Some (Returned h))"
  using assms by (simp add: calls_on_cached) (simp add: connectDB_call_def)

text \<open>Claim C9, at three calls made once a connection has been cached.\<close>

theorem cached_connection_returned_at_once_witness:
  "\<exists>s. run start [Call 0, Settle 0 (Inr 7), Resume 0] = Some s \<and> conn (cached s) = Some 7 \<and>
     connects (foldl connectDB_call s [1, 2, 3]) = [Fulfilled 7] \<and>
     finished (foldl connectDB_call s [1, 2, 3]) 3 = Some (Returned 7)"
proof -
  obtain s where r: "run start [Call 0, Settle 0 (Inr 7), Resume 0] = Some s"
    and c: "conn (cached s) = Some 7" and n: "connects s = [Fulfilled 7]"
    by (simp add: start_def init_cached_def connectDB_call_def connectDB_resume_def settle_def
        settled_def)
  from cached_connection_returned_at_once [OF c, of 1 "[1, 2, 3]"]
  have a: "connects (foldl connectDB_call s [1, 2, 3]) = connects s"
    and b: "\<forall>d\<in>set [1, 2, 3]. finished (foldl connectDB_call s [1, 2, 3]) d = Some (Returned 7)"
    by blast+
  from a n have "connects (foldl connectDB_call s [1, 2, 3]) = [Fulfilled 7]"
    by (rule trans)
  moreover have "(3::nat) \<in> set [1, 2, 3]" by simp
  with b have "finished (foldl connectDB_call s [1, 2, 3]) 3 = Some (Returned 7)"
    by (rule bspec)
  ultimately show ?thesis using r c by blast
qed

end
